theory Spec2Isabelle
  imports Main "HOL-Library.Multiset" "HOL-Library.Sublist"
begin

section \<open>The worker pool of src/util/ThreadPool.cpp\<close>

text \<open>
  The pool is a concurrent program: \<open>n\<close> worker threads run \<open>ThreadPool::work\<close>, any
  number of caller threads run \<open>submitTask\<close>, and the owner runs the constructor, the
  destructor and \<open>waitForAll\<close>. The embedding is an interleaving semantics: the state is
  the pool object together with the program counter of every worker, and one
  \<open>step\<close> performs one atomic action of one thread. Which thread moves next is the
  scheduler's choice, so a run is a list of actions.

  A statement that touches only data protected by \<open>queueLock\<close> is one step when the
  thread holds the lock. The flag \<open>shouldStop\<close> is a \<open>std::atomic<bool>\<close> written without
  the lock, so each read of it in \<open>work\<close> is a step of its own and a store may fall
  between any two of them, also between the evaluation of the wait predicate and the
  moment the thread blocks on the condition variable.
\<close>

subsection \<open>Tasks\<close>

text \<open>
  A task is a \<open>std::function<void()>\<close>: either empty, or a callable. A call acts on state
  outside the pool (\<open>'w\<close>) and either returns, throws something derived from
  \<open>std::exception\<close> (with its \<open>what()\<close> text), or throws anything else.
\<close>

datatype outcome = Returned | ThrewStd string | ThrewOther

type_synonym 'w callable = "'w \<Rightarrow> outcome \<times> 'w"

datatype 'w task = NullFn | Fn "'w callable"

text \<open>One line written to \<open>std::cerr\<close> by a catch clause of \<open>work\<close>; the number is the
  worker whose \<open>std::this_thread::get_id()\<close> is printed.\<close>

datatype report = Exception nat string | UnknownException nat

fun report_of :: "nat \<Rightarrow> outcome \<Rightarrow> report list" where
  "report_of i Returned = []"
| "report_of i (ThrewStd what) = [Exception i what]"
| "report_of i ThrewOther = [UnknownException i]"

subsection \<open>State\<close>

text \<open>
  Program points of \<open>work\<close>, named after the lines of the source:
  \<^item> \<open>AtLock\<close>: top of the loop, \<open>task\<close> default-constructed (line 36), about to acquire
    \<open>queueLock\<close> (line 41); also a thread woken inside \<open>wait\<close> that must re-acquire it;
  \<^item> \<open>EvalPred\<close>: lock held, about to evaluate the wait predicate (lines 44-46);
  \<^item> \<open>AboutToWait\<close>: lock held, predicate was false, about to block;
  \<^item> \<open>Blocked\<close>: waiting on \<open>hasTask\<close>, lock released;
  \<^item> \<open>Check49\<close>, \<open>Check53\<close>: lock held, about to run the test of that line;
  \<^item> \<open>AtPop\<close>: lock held, about to run \<open>front\<close>/\<open>pop\<close> (lines 55-56);
  \<^item> \<open>Holding t\<close>: lock released (line 58), local \<open>task\<close> is \<open>t\<close>, about to test it (line 60);
  \<^item> \<open>Running f\<close>: inside the call \<open>task()\<close> of line 64;
  \<^item> \<open>Exited\<close>: returned from \<open>work\<close> (line 50); the thread is finished.
\<close>

datatype 'w pc =
    AtLock | EvalPred | AboutToWait | Blocked | Check49 | Check53 | AtPop
  | Holding "'w task" | Running "'w callable" | Exited

text \<open>
  The members of the class (\<open>shouldStop\<close>, \<open>workers\<close>, \<open>runqueue\<close>, \<open>queueLock\<close>; the
  waiters of \<open>hasTask\<close> are the workers at \<open>Blocked\<close>), the \<open>joinable()\<close> state of each
  \<open>std::thread\<close> handle, the number of callers of \<open>submitTask\<close> that have left the
  critical section and not yet called \<open>notify_one\<close> (between lines 108 and 110), the
  state the tasks act on, and what was written to \<open>std::cerr\<close>.

  \<open>submitted\<close>, \<open>taken\<close> and \<open>finished\<close> are history variables: the tasks appended to the
  queue, the tasks popped from it, and the tasks a worker is done with (a callable
  that returned or threw, or an empty task that line 60 skipped), each in the order
  in which it happened. No step reads them.
\<close>

record 'w pool =
  shouldStop :: bool
  workers :: "'w pc list"
  joinable :: "bool list"
  runqueue :: "'w task list"
  queueLock :: "nat option"
  signals_due :: nat
  world :: 'w
  stderr :: "report list"
  submitted :: "'w task list"
  taken :: "'w task list"
  finished :: "'w task list"

text \<open>Why an action yields no successor state: the thread cannot move now (it waits for
  a lock, a notification or a thread's end, it is finished, or it does not exist);
  \<open>std::thread::join\<close> threw \<open>std::system_error\<close>; \<open>front()\<close> on an empty \<open>std::queue\<close>.\<close>

datatype halt = NotEnabled | SystemError | UndefinedBehaviour

datatype 'w action =
    Work nat | Spurious nat | Enqueue "'w task" | NotifyOne nat
  | StoreStop | NotifyAll | Join nat

subsection \<open>The constructor\<close>

text \<open>Lines 80-85: \<open>shouldStop(false)\<close>, then \<open>concurrency\<close> threads are started on
  \<open>ThreadPool::work\<close>; the queue is empty and the mutex free.\<close>

definition ThreadPool :: "nat \<Rightarrow> 'w \<Rightarrow> 'w pool" where
  "ThreadPool concurrency w =
     \<lparr>shouldStop = False, workers = replicate concurrency AtLock,
      joinable = replicate concurrency True, runqueue = [], queueLock = None,
      signals_due = 0, world = w, stderr = [], submitted = [], taken = [],
      finished = []\<rparr>"

subsection \<open>One step of a worker: \<open>ThreadPool::work\<close>\<close>

fun work_at :: "nat \<Rightarrow> 'w pc \<Rightarrow> 'w pool \<Rightarrow> halt + 'w pool" where
  "work_at i AtLock s =
     (if queueLock s = None
      then Inr (s\<lparr>queueLock := Some i, workers := (workers s)[i := EvalPred]\<rparr>)
      else Inl NotEnabled)"
| "work_at i EvalPred s =
     (if shouldStop s \<or> runqueue s \<noteq> []
      then Inr (s\<lparr>workers := (workers s)[i := Check49]\<rparr>)
      else Inr (s\<lparr>workers := (workers s)[i := AboutToWait]\<rparr>))"
| "work_at i AboutToWait s =
     Inr (s\<lparr>queueLock := None, workers := (workers s)[i := Blocked]\<rparr>)"
| "work_at i Blocked s = Inl NotEnabled"
| "work_at i Check49 s =
     (if shouldStop s \<and> runqueue s = []
      then Inr (s\<lparr>queueLock := None, workers := (workers s)[i := Exited]\<rparr>)
      else Inr (s\<lparr>workers := (workers s)[i := Check53]\<rparr>))"
| "work_at i Check53 s =
     (if runqueue s \<noteq> []
      then Inr (s\<lparr>workers := (workers s)[i := AtPop]\<rparr>)
      else Inr (s\<lparr>queueLock := None, workers := (workers s)[i := Holding NullFn]\<rparr>))"
| "work_at i AtPop s =
     (case runqueue s of
        [] \<Rightarrow> Inl UndefinedBehaviour
      | t # q \<Rightarrow> Inr (s\<lparr>runqueue := q, queueLock := None, taken := taken s @ [t],
                        workers := (workers s)[i := Holding t]\<rparr>))"
| "work_at i (Holding t) s =
     (case t of
        NullFn \<Rightarrow> Inr (s\<lparr>finished := finished s @ [NullFn],
                          workers := (workers s)[i := AtLock]\<rparr>)
      | Fn f \<Rightarrow> Inr (s\<lparr>workers := (workers s)[i := Running f]\<rparr>))"
| "work_at i (Running f) s =
     (case f (world s) of
        (out, w') \<Rightarrow> Inr (s\<lparr>world := w', stderr := stderr s @ report_of i out,
                            finished := finished s @ [Fn f],
                            workers := (workers s)[i := AtLock]\<rparr>))"
| "work_at i Exited s = Inl NotEnabled"

definition work :: "nat \<Rightarrow> 'w pool \<Rightarrow> halt + 'w pool" where
  "work i s = (if i < length (workers s) then work_at i (workers s ! i) s else Inl NotEnabled)"

subsection \<open>The other threads\<close>

fun waiting :: "'w pc \<Rightarrow> bool" where
  "waiting Blocked = True"
| "waiting _ = False"

fun exited :: "'w pc \<Rightarrow> bool" where
  "exited Exited = True"
| "exited _ = False"

fun wake :: "'w pc \<Rightarrow> 'w pc" where
  "wake Blocked = AtLock"
| "wake p = p"

text \<open>
  \<^item> \<open>Work i\<close>: worker \<open>i\<close> runs its next statement;
  \<^item> \<open>Spurious i\<close>: worker \<open>i\<close> returns from the inner \<open>wait\<close> without a notification;
  \<^item> \<open>Enqueue t\<close>: lines 104-108 of \<open>submitTask\<close>, the whole critical section (it touches
    only the queue, so nothing can be observed inside it);
  \<^item> \<open>NotifyOne j\<close>: line 110, by a caller that has done its \<open>Enqueue\<close>; the condition
    variable wakes one waiting thread, \<open>j\<close> (its choice), or nobody when none waits;
  \<^item> \<open>StoreStop\<close>: \<open>this->shouldStop = true\<close> (lines 88 and 114);
  \<^item> \<open>NotifyAll\<close>: \<open>hasTask.notify_all()\<close> (lines 91 and 116);
  \<^item> \<open>Join i\<close>: \<open>workers[i].join()\<close> (lines 95 and 118): throws on a handle that is not
    joinable, returns once thread \<open>i\<close> has finished, blocks until then.
\<close>

fun step :: "'w action \<Rightarrow> 'w pool \<Rightarrow> halt + 'w pool" where
  "step (Work i) s = work i s"
| "step (Spurious i) s =
     (if i < length (workers s) \<and> waiting (workers s ! i)
      then Inr (s\<lparr>workers := (workers s)[i := AtLock]\<rparr>)
      else Inl NotEnabled)"
| "step (Enqueue t) s =
     (if queueLock s = None
      then Inr (s\<lparr>runqueue := runqueue s @ [t], signals_due := Suc (signals_due s),
                  submitted := submitted s @ [t]\<rparr>)
      else Inl NotEnabled)"
| "step (NotifyOne j) s =
     (if signals_due s = 0 then Inl NotEnabled
      else if list_ex waiting (workers s)
      then (if j < length (workers s) \<and> waiting (workers s ! j)
            then Inr (s\<lparr>signals_due := signals_due s - 1,
                        workers := (workers s)[j := AtLock]\<rparr>)
            else Inl NotEnabled)
      else Inr (s\<lparr>signals_due := signals_due s - 1\<rparr>))"
| "step StoreStop s = Inr (s\<lparr>shouldStop := True\<rparr>)"
| "step NotifyAll s = Inr (s\<lparr>workers := map wake (workers s)\<rparr>)"
| "step (Join i) s =
     (if i < length (workers s) \<and> i < length (joinable s)
      then (if \<not> joinable s ! i then Inl SystemError
            else if exited (workers s ! i)
            then Inr (s\<lparr>joinable := (joinable s)[i := False]\<rparr>)
            else Inl NotEnabled)
      else Inl NotEnabled)"

fun exec :: "'w action list \<Rightarrow> 'w pool \<Rightarrow> halt + 'w pool" where
  "exec [] s = Inr s"
| "exec (a # as) s = (case step a s of Inl h \<Rightarrow> Inl h | Inr s' \<Rightarrow> exec as s')"

subsection \<open>The public operations as sequences of actions\<close>

text \<open>\<open>submitTask\<close> (lines 103-111); \<open>j\<close> is the waiter the condition variable picks.\<close>

definition submitTask :: "'w task \<Rightarrow> nat \<Rightarrow> 'w action list" where
  "submitTask f j = [Enqueue f, NotifyOne j]"

text \<open>The body of the destructor (lines 87-97) and of \<open>waitForAll\<close> (lines 113-120), on a
  pool whose \<open>workers\<close> vector is that of \<open>s\<close>.\<close>

definition ThreadPool_dtor :: "'w pool \<Rightarrow> 'w action list" where
  "ThreadPool_dtor s = StoreStop # NotifyAll # map Join [0..<length (workers s)]"

definition waitForAll :: "'w pool \<Rightarrow> 'w action list" where
  "waitForAll s = [StoreStop, NotifyAll] @ map Join [0..<length (workers s)]"

subsection \<open>The demonstration tasks\<close>

text \<open>The task of \<open>main\<close> (lines 130-134) prints \<open>i\<close> to \<open>std::cout\<close> under a mutex of its
  own; with the output as the outside state it appends \<open>i\<close>. \<open>failing_task\<close> throws a
  \<open>std::runtime_error\<close> and \<open>throwing_task\<close> throws a value that is no \<open>std::exception\<close>;
  both leave the output alone.\<close>

definition main_task :: "nat \<Rightarrow> nat list callable" where
  "main_task i out = (Returned, out @ [i])"

definition failing_task :: "nat list callable" where
  "failing_task out = (ThrewStd ''boom'', out)"

definition throwing_task :: "nat list callable" where
  "throwing_task out = (ThrewOther, out)"

subsection \<open>Observations on states and runs\<close>

text \<open>The workers that have not returned from \<open>work\<close>, the workers asleep in the wait,
  and the number of stores to \<open>shouldStop\<close> in a run.\<close>

definition live :: "'w pc list \<Rightarrow> nat" where
  "live ws = length (filter (\<lambda>p. \<not> exited p) ws)"

definition sleepers :: "'w pc list \<Rightarrow> nat" where
  "sleepers ws = length (filter waiting ws)"

fun stores :: "'w action list \<Rightarrow> nat" where
  "stores [] = 0"
| "stores (StoreStop # as) = Suc (stores as)"
| "stores (a # as) = stores as"

text \<open>The actions that end a worker's sleep on the condition variable.\<close>

fun wakes :: "'w action \<Rightarrow> bool" where
  "wakes (Spurious i) = True"
| "wakes (NotifyOne j) = True"
| "wakes NotifyAll = True"
| "wakes _ = False"

text \<open>The task a worker has popped and is not yet done with.\<close>

fun in_hand :: "'w pc \<Rightarrow> 'w task list" where
  "in_hand (Holding t) = [t]"
| "in_hand (Running f) = [Fn f]"
| "in_hand _ = []"

text \<open>A worker that is neither asleep in the wait nor finished.\<close>

fun awake :: "'w pc \<Rightarrow> bool" where
  "awake Blocked = False"
| "awake Exited = False"
| "awake _ = True"

subsection \<open>Invariants\<close>

text \<open>The program points inside the critical section of lines 41-58.\<close>

fun holds :: "'w pc \<Rightarrow> bool" where
  "holds EvalPred = True"
| "holds AboutToWait = True"
| "holds Check49 = True"
| "holds Check53 = True"
| "holds AtPop = True"
| "holds _ = False"

text \<open>Mutual exclusion: worker \<open>i\<close> is inside the critical section exactly when the
  mutex records \<open>i\<close> as its owner.\<close>

definition locked_by :: "nat option \<Rightarrow> 'w pc list \<Rightarrow> bool" where
  "locked_by l ws \<longleftrightarrow>
     (\<forall>i<length ws. holds (ws ! i) = (l = Some i)) \<and> (\<forall>i. l = Some i \<longrightarrow> i < length ws)"

definition lock_inv :: "'w pool \<Rightarrow> bool" where
  "lock_inv s \<longleftrightarrow> locked_by (queueLock s) (workers s)"

text \<open>What the owner of the mutex has established at each program point, given the
  flag \<open>b\<close> and the queue \<open>q\<close>.\<close>

fun knows :: "bool \<Rightarrow> 'w task list \<Rightarrow> 'w pc \<Rightarrow> bool" where
  "knows b q AboutToWait = (q = [])"
| "knows b q Check49 = (b \<or> q \<noteq> [])"
| "knows b q Check53 = (q \<noteq> [])"
| "knows b q AtPop = (q \<noteq> [])"
| "knows b q _ = True"

definition cs_inv :: "'w pool \<Rightarrow> bool" where
  "cs_inv s \<longleftrightarrow>
     (\<forall>i. queueLock s = Some i \<longrightarrow> knows (shouldStop s) (runqueue s) (workers s ! i))"

text \<open>A worker has returned only after the flag was set.\<close>

definition exit_inv :: "'w pool \<Rightarrow> bool" where
  "exit_inv s \<longleftrightarrow> (\<forall>p\<in>set (workers s). exited p \<longrightarrow> shouldStop s)"

text \<open>The queue holds the submitted tasks that were not popped, in submission order.\<close>

definition fifo_inv :: "'w pool \<Rightarrow> bool" where
  "fifo_inv s \<longleftrightarrow> taken s @ runqueue s = submitted s"

text \<open>Every popped task is finished or in the hand of a worker.\<close>

definition inflight :: "'w pc list \<Rightarrow> 'w task multiset" where
  "inflight ws = sum_list (map (\<lambda>p. mset (in_hand p)) ws)"

definition flight_inv :: "'w pool \<Rightarrow> bool" where
  "flight_inv s \<longleftrightarrow> mset (taken s) = mset (finished s) + inflight (workers s)"

text \<open>No lost wake-up for a queued task: when a task is queued, no \<open>notify_one\<close> is
  still due and some worker has not finished, then some worker is awake.\<close>

definition wake_inv :: "'w pool \<Rightarrow> bool" where
  "wake_inv s \<longleftrightarrow>
     (runqueue s \<noteq> [] \<and> signals_due s = 0 \<and> list_ex (\<lambda>p. \<not> exited p) (workers s)
      \<longrightarrow> list_ex awake (workers s))"

text \<open>With a single worker the popped tasks are the finished ones, in order, followed
  by the one in its hand.\<close>

definition one_inv :: "'w pool \<Rightarrow> bool" where
  "one_inv s \<longleftrightarrow> (length (workers s) = 1 \<longrightarrow> taken s = finished s @ in_hand (workers s ! 0))"

definition pool_inv :: "'w pool \<Rightarrow> bool" where
  "pool_inv s \<longleftrightarrow> lock_inv s \<and> cs_inv s \<and> exit_inv s \<and> fifo_inv s \<and> flight_inv s \<and>
     wake_inv s \<and> one_inv s"


section \<open>Invariants of the interleaving semantics\<close>

lemma locked_byD: "locked_by l ws \<Longrightarrow> i < length ws \<Longrightarrow> holds (ws ! i) = (l = Some i)"
  by (simp add: locked_by_def)

lemma locked_by_keep:
  assumes "locked_by l ws" and "holds p = holds (ws ! i)"
  shows "locked_by l (ws[i := p])"
  unfolding locked_by_def
proof (intro conjI allI impI)
  fix j assume "j < length (ws[i := p])"
  then have j: "j < length ws" by simp
  show "holds (ws[i := p] ! j) = (l = Some j)"
  proof (cases "j = i")
    case True
    with j assms show ?thesis by (simp add: locked_by_def)
  next
    case False
    with j assms show ?thesis by (simp add: locked_by_def)
  qed
next
  fix j assume "l = Some j"
  with assms show "j < length (ws[i := p])" by (simp add: locked_by_def)
qed

lemma locked_by_acquire:
  assumes "locked_by None ws" and "i < length ws" and "holds p"
  shows "locked_by (Some i) (ws[i := p])"
  unfolding locked_by_def
proof (intro conjI allI impI)
  fix j assume "j < length (ws[i := p])"
  then have j: "j < length ws" by simp
  show "holds (ws[i := p] ! j) = (Some i = Some j)"
  proof (cases "j = i")
    case True
    with j assms show ?thesis by simp
  next
    case False
    with j assms show ?thesis by (auto simp: locked_by_def)
  qed
next
  fix j assume "Some i = Some j"
  with assms show "j < length (ws[i := p])" by simp
qed

lemma locked_by_release:
  assumes "locked_by (Some i) ws" and "\<not> holds p"
  shows "locked_by None (ws[i := p])"
  unfolding locked_by_def
proof (intro conjI allI impI)
  fix j assume "j < length (ws[i := p])"
  then have j: "j < length ws" by simp
  show "holds (ws[i := p] ! j) = (None = Some j)"
  proof (cases "j = i")
    case True
    with j assms show ?thesis by simp
  next
    case False
    with j assms show ?thesis by (auto simp: locked_by_def)
  qed
qed simp

lemma holds_wake: "holds (wake p) = holds p"
  by (cases p) auto

lemma locked_by_wake: "locked_by l ws \<Longrightarrow> locked_by l (map wake ws)"
  by (simp add: locked_by_def holds_wake)

lemma waiting_not_holds: "waiting p \<Longrightarrow> \<not> holds p"
  by (cases p) auto

lemma work_cases:
  assumes "work i s = Inr s'"
  obtains p where "i < length (workers s)" "workers s ! i = p" "work_at i p s = Inr s'"
  using assms by (auto simp: work_def split: if_splits)

lemma lock_inv_work:
  assumes w: "work i s = Inr s'" and inv: "lock_inv s"
  shows "lock_inv s'"
proof -
  from w obtain p where i: "i < length (workers s)" and p: "workers s ! i = p"
    and at: "work_at i p s = Inr s'" by (rule work_cases)
  from inv have lb: "locked_by (queueLock s) (workers s)" by (simp add: lock_inv_def)
  from locked_byD[OF lb i] p have hi: "holds p = (queueLock s = Some i)" by simp
  show ?thesis
  proof (cases p)
    case AtLock
    with at lb i show ?thesis
      by (auto simp: lock_inv_def intro!: locked_by_acquire split: if_splits)
  next
    case EvalPred
    with at lb p show ?thesis
      by (auto simp: lock_inv_def intro!: locked_by_keep split: if_splits)
  next
    case AboutToWait
    with at lb hi show ?thesis
      by (auto simp: lock_inv_def intro!: locked_by_release)
  next
    case Check49
    with at lb hi p show ?thesis
      by (auto simp: lock_inv_def locked_by_release locked_by_keep split: if_splits)
  next
    case Check53
    with at lb hi p show ?thesis
      by (auto simp: lock_inv_def locked_by_release locked_by_keep split: if_splits)
  next
    case AtPop
    with at lb hi show ?thesis
      by (auto simp: lock_inv_def intro!: locked_by_release split: list.splits)
  next
    case (Holding t)
    with at lb p show ?thesis
      by (cases t) (auto simp: lock_inv_def intro!: locked_by_keep)
  next
    case (Running f)
    with at lb p show ?thesis
      by (auto simp: lock_inv_def intro!: locked_by_keep split: prod.splits)
  qed (use at in auto)
qed

lemma lock_inv_step:
  assumes st: "step a s = Inr s'" and inv: "lock_inv s"
  shows "lock_inv s'"
proof (cases a)
  case (Work i)
  with st inv show ?thesis by (simp add: lock_inv_work)
next
  case (Spurious i)
  with st inv show ?thesis
    by (auto simp: lock_inv_def waiting_not_holds intro!: locked_by_keep split: if_splits)
next
  case (Enqueue t)
  with st inv show ?thesis by (auto simp: lock_inv_def split: if_splits)
next
  case (NotifyOne j)
  with st inv show ?thesis
    by (auto simp: lock_inv_def waiting_not_holds intro!: locked_by_keep split: if_splits)
next
  case StoreStop
  with st inv show ?thesis by (auto simp: lock_inv_def)
next
  case NotifyAll
  with st inv show ?thesis by (auto simp: lock_inv_def locked_by_wake)
next
  case (Join i)
  with st inv show ?thesis by (auto simp: lock_inv_def split: if_splits)
qed


lemma knows_wake: "knows b q p \<Longrightarrow> knows b q (wake p)"
  by (cases p) auto

lemma knows_stop: "knows b q p \<Longrightarrow> knows True q p"
  by (cases p) auto

lemma lock_inv_holder:
  "lock_inv s \<Longrightarrow> queueLock s = Some j \<Longrightarrow> j < length (workers s) \<and> holds (workers s ! j)"
  by (simp add: lock_inv_def locked_by_def)

lemma lock_inv_other:
  "lock_inv s \<Longrightarrow> i < length (workers s) \<Longrightarrow> \<not> holds (workers s ! i) \<Longrightarrow> queueLock s \<noteq> Some i"
  by (simp add: lock_inv_def locked_by_def)

lemma lock_inv_self:
  "lock_inv s \<Longrightarrow> i < length (workers s) \<Longrightarrow> holds (workers s ! i) \<Longrightarrow> queueLock s = Some i"
  by (simp add: lock_inv_def locked_by_def)

lemma cs_inv_work:
  assumes w: "work i s = Inr s'" and li: "lock_inv s" and inv: "cs_inv s"
  shows "cs_inv s'"
proof -
  from w obtain p where i: "i < length (workers s)" and p: "workers s ! i = p"
    and at: "work_at i p s = Inr s'" by (rule work_cases)
  show ?thesis
  proof (cases "holds p")
    case True
    with li i p have l: "queueLock s = Some i" by (simp add: lock_inv_self)
    with inv p have k: "knows (shouldStop s) (runqueue s) p" by (simp add: cs_inv_def)
    from True at l k i show ?thesis
      by (cases p) (auto simp: cs_inv_def split: if_splits list.splits)
  next
    case False
    with li i p have l: "queueLock s \<noteq> Some i" by (simp add: lock_inv_other)
    show ?thesis
    proof (cases p)
      case AtLock
      with at i show ?thesis by (auto simp: cs_inv_def split: if_splits)
    next
      case (Holding t)
      with at l inv show ?thesis
        by (cases t) (auto simp: cs_inv_def nth_list_update)
    next
      case (Running f)
      with at l inv show ?thesis
        by (auto simp: cs_inv_def nth_list_update split: prod.splits)
    qed (use False at in auto)
  qed
qed

lemma cs_inv_step:
  assumes st: "step a s = Inr s'" and li: "lock_inv s" and inv: "cs_inv s"
  shows "cs_inv s'"
proof (cases a)
  case (Work i)
  with st li inv show ?thesis by (simp add: cs_inv_work)
next
  case (Spurious i)
  with st have i: "i < length (workers s)" and wt: "waiting (workers s ! i)"
    and s': "s' = s\<lparr>workers := (workers s)[i := AtLock]\<rparr>"
    by (auto split: if_splits)
  from li i wt have "queueLock s \<noteq> Some i" by (simp add: lock_inv_other waiting_not_holds)
  with inv s' show ?thesis by (auto simp: cs_inv_def nth_list_update)
next
  case (Enqueue t)
  with st show ?thesis by (auto simp: cs_inv_def split: if_splits)
next
  case (NotifyOne j)
  show ?thesis
  proof (cases "list_ex waiting (workers s)")
    case True
    with st NotifyOne have j: "j < length (workers s)" and wt: "waiting (workers s ! j)"
      and s': "s' = s\<lparr>signals_due := signals_due s - 1, workers := (workers s)[j := AtLock]\<rparr>"
      by (auto split: if_splits)
    from li j wt have "queueLock s \<noteq> Some j" by (simp add: lock_inv_other waiting_not_holds)
    with inv s' show ?thesis by (auto simp: cs_inv_def nth_list_update)
  next
    case False
    with st NotifyOne inv show ?thesis by (auto simp: cs_inv_def split: if_splits)
  qed
next
  case StoreStop
  with st inv show ?thesis by (auto simp: cs_inv_def knows_stop)
next
  case NotifyAll
  with st have s': "s' = s\<lparr>workers := map wake (workers s)\<rparr>" by simp
  show ?thesis
    unfolding cs_inv_def
  proof (intro allI impI)
    fix j assume "queueLock s' = Some j"
    with s' have l: "queueLock s = Some j" by simp
    with li have j: "j < length (workers s)" by (simp add: lock_inv_holder)
    from inv l have "knows (shouldStop s) (runqueue s) (workers s ! j)" by (simp add: cs_inv_def)
    with s' j show "knows (shouldStop s') (runqueue s') (workers s' ! j)"
      by (simp add: knows_wake)
  qed
next
  case (Join i)
  with st inv show ?thesis by (auto simp: cs_inv_def split: if_splits)
qed

lemma in_set_update: "x \<in> set (ws[i := p]) \<Longrightarrow> x = p \<or> x \<in> set ws"
  using set_update_subset_insert[of ws i p] by auto

lemma exited_wake: "exited (wake p) = exited p"
  by (cases p) auto

lemma exit_inv_work:
  assumes w: "work i s = Inr s'" and inv: "exit_inv s"
  shows "exit_inv s'"
proof -
  from w obtain p where at: "work_at i p s = Inr s'" by (rule work_cases)
  from at inv show ?thesis
    by (cases p)
       (auto simp: exit_inv_def dest!: in_set_update split: if_splits list.splits task.splits prod.splits)
qed

lemma exit_inv_step:
  assumes st: "step a s = Inr s'" and inv: "exit_inv s"
  shows "exit_inv s'"
proof (cases a)
  case (Work i)
  with st inv show ?thesis by (simp add: exit_inv_work)
qed (use st inv in \<open>auto simp: exit_inv_def exited_wake dest!: in_set_update split: if_splits\<close>)

lemma fifo_inv_work:
  assumes w: "work i s = Inr s'" and inv: "fifo_inv s"
  shows "fifo_inv s'"
proof -
  from w obtain p where at: "work_at i p s = Inr s'" by (rule work_cases)
  from at inv show ?thesis
    by (cases p) (auto simp: fifo_inv_def split: if_splits list.splits task.splits prod.splits)
qed

lemma fifo_inv_step:
  assumes st: "step a s = Inr s'" and inv: "fifo_inv s"
  shows "fifo_inv s'"
proof (cases a)
  case (Work i)
  with st inv show ?thesis by (simp add: fifo_inv_work)
qed (use st inv in \<open>auto simp: fifo_inv_def split: if_splits\<close>)


lemma inflight_update:
  "i < length ws \<Longrightarrow> inflight (ws[i := p]) + mset (in_hand (ws ! i)) = inflight ws + mset (in_hand p)"
proof (induction ws arbitrary: i)
  case Nil
  then show ?case by simp
next
  case (Cons w ws)
  show ?case
  proof (cases i)
    case 0
    then show ?thesis by (simp add: inflight_def)
  next
    case (Suc k)
    with Cons.prems have "k < length ws" by simp
    from Cons.IH[OF this] Suc show ?thesis
      by (simp add: inflight_def add.assoc)
  qed
qed

lemma in_hand_wake: "in_hand (wake p) = in_hand p"
  by (cases p) auto

lemma inflight_wake: "inflight (map wake ws) = inflight ws"
  by (induction ws) (auto simp: inflight_def in_hand_wake)

lemma inflight_idle:
  "i < length ws \<Longrightarrow> in_hand (ws ! i) = [] \<Longrightarrow> inflight (ws[i := p]) = inflight ws + mset (in_hand p)"
  using inflight_update[of i ws p] by simp

lemma flight_inv_work:
  assumes w: "work i s = Inr s'" and li: "lock_inv s" and cs: "cs_inv s"
    and inv: "flight_inv s"
  shows "flight_inv s'"
proof -
  from w obtain p where i: "i < length (workers s)" and p: "workers s ! i = p"
    and at: "work_at i p s = Inr s'" by (rule work_cases)
  have k: "knows (shouldStop s) (runqueue s) p" if "holds p"
    using that li cs i p lock_inv_self[of s i] by (auto simp: cs_inv_def)
  note upd = inflight_update[OF i, of _, unfolded p]
  show ?thesis
  proof (cases p)
    case (Holding t)
    show ?thesis
    proof (cases t)
      case NullFn
      with Holding at inv upd[of AtLock] show ?thesis
        by (auto simp: flight_inv_def)
    next
      case (Fn f)
      with Holding at inv upd[of "Running f"] show ?thesis
        by (auto simp: flight_inv_def)
    qed
  next
    case (Running f)
    with at inv upd[of AtLock] show ?thesis
      by (auto simp: flight_inv_def split: prod.splits)
  next
    case AtPop
    with at inv upd[of "Holding t" for t] show ?thesis
      by (auto simp: flight_inv_def split: list.splits)
  qed (use at inv i p k in \<open>auto simp: flight_inv_def inflight_idle split: if_splits\<close>)
qed

lemma waiting_in_hand: "waiting p \<Longrightarrow> in_hand p = []"
  by (cases p) auto

lemma flight_inv_step:
  assumes st: "step a s = Inr s'" and li: "lock_inv s" and cs: "cs_inv s"
    and inv: "flight_inv s"
  shows "flight_inv s'"
proof (cases a)
  case (Work i)
  with st li cs inv show ?thesis by (simp add: flight_inv_work)
qed (use st inv in \<open>auto simp: flight_inv_def inflight_wake inflight_idle waiting_in_hand split: if_splits\<close>)


lemma awake_update: "i < length ws \<Longrightarrow> awake p \<Longrightarrow> list_ex awake (ws[i := p])"
  unfolding list_ex_iff by (metis set_update_memI)

lemma awake_wake: "\<not> exited p \<Longrightarrow> awake (wake p)"
  by (cases p) auto

lemma exited_wake_iff: "list_ex (\<lambda>p. \<not> exited p) (map wake ws) = list_ex (\<lambda>p. \<not> exited p) ws"
  by (induction ws) (auto simp: exited_wake)

lemma awake_after_notify_all:
  "list_ex (\<lambda>p. \<not> exited p) ws \<Longrightarrow> list_ex awake (map wake ws)"
  by (induction ws) (auto simp: awake_wake)

lemma awake_if_none_waits:
  "\<not> list_ex waiting ws \<Longrightarrow> list_ex (\<lambda>p. \<not> exited p) ws \<Longrightarrow> list_ex awake ws"
proof (induction ws)
  case Nil
  then show ?case by simp
next
  case (Cons w ws)
  then show ?case by (cases w) auto
qed

lemma wake_inv_work:
  assumes w: "work i s = Inr s'" and li: "lock_inv s" and cs: "cs_inv s"
    and inv: "wake_inv s"
  shows "wake_inv s'"
proof -
  from w obtain p where i: "i < length (workers s)" and p: "workers s ! i = p"
    and at: "work_at i p s = Inr s'" by (rule work_cases)
  have k: "knows (shouldStop s) (runqueue s) p" if "holds p"
    using that li cs i p lock_inv_self[of s i] by (auto simp: cs_inv_def)
  show ?thesis
  proof (cases p)
    case AboutToWait
    with at k show ?thesis by (auto simp: wake_inv_def)
  next
    case Check49
    with at i show ?thesis
      by (auto simp: wake_inv_def awake_update split: if_splits)
  next
    case AtPop
    with at i show ?thesis
      by (auto simp: wake_inv_def awake_update split: list.splits)
  next
    case (Holding t)
    with at i show ?thesis
      by (cases t) (auto simp: wake_inv_def awake_update)
  next
    case (Running f)
    with at i show ?thesis
      by (auto simp: wake_inv_def awake_update split: prod.splits)
  qed (use at i in \<open>auto simp: wake_inv_def awake_update split: if_splits\<close>)
qed

lemma wake_inv_step:
  assumes st: "step a s = Inr s'" and li: "lock_inv s" and cs: "cs_inv s"
    and inv: "wake_inv s"
  shows "wake_inv s'"
proof (cases a)
  case (Work i)
  with st li cs inv show ?thesis by (simp add: wake_inv_work)
next
  case (Spurious i)
  with st show ?thesis by (auto simp: wake_inv_def awake_update split: if_splits)
next
  case (Enqueue t)
  with st show ?thesis by (auto simp: wake_inv_def split: if_splits)
next
  case (NotifyOne j)
  with st show ?thesis
    by (auto simp: wake_inv_def awake_update awake_if_none_waits split: if_splits)
next
  case StoreStop
  with st inv show ?thesis by (auto simp: wake_inv_def)
next
  case NotifyAll
  with st show ?thesis
    by (auto simp: wake_inv_def exited_wake_iff awake_after_notify_all)
next
  case (Join i)
  with st inv show ?thesis by (auto simp: wake_inv_def split: if_splits)
qed


lemma work_at_length:
  "work_at i p s = Inr s' \<Longrightarrow> length (workers s') = length (workers s)"
  by (cases p) (auto split: if_splits list.splits task.splits prod.splits)

lemma work_length: "work i s = Inr s' \<Longrightarrow> length (workers s') = length (workers s)"
  by (auto simp: work_def work_at_length split: if_splits)

lemma step_length: "step a s = Inr s' \<Longrightarrow> length (workers s') = length (workers s)"
  by (cases a) (auto simp: work_length split: if_splits)

lemma one_inv_work:
  assumes w: "work i s = Inr s'" and li: "lock_inv s" and cs: "cs_inv s"
    and inv: "one_inv s"
  shows "one_inv s'"
proof -
  from w obtain p where i: "i < length (workers s)" and p: "workers s ! i = p"
    and at: "work_at i p s = Inr s'" by (rule work_cases)
  have k: "knows (shouldStop s) (runqueue s) p" if "holds p"
    using that li cs i p lock_inv_self[of s i] by (auto simp: cs_inv_def)
  show ?thesis
  proof (cases "length (workers s) = 1")
    case True
    with i have i0: "i = 0" by simp
    with inv True p have t: "taken s = finished s @ in_hand p" by (simp add: one_inv_def)
    from at t True i0 k show ?thesis
      by (cases p)
         (auto simp: one_inv_def split: if_splits list.splits task.splits prod.splits)
  next
    case False
    with at have "length (workers s') \<noteq> 1" by (simp add: work_at_length)
    then show ?thesis by (simp add: one_inv_def)
  qed
qed

lemma one_inv_step:
  assumes st: "step a s = Inr s'" and li: "lock_inv s" and cs: "cs_inv s"
    and inv: "one_inv s"
  shows "one_inv s'"
proof (cases a)
  case (Work i)
  with st li cs inv show ?thesis by (simp add: one_inv_work)
qed (use st inv in \<open>auto simp: one_inv_def in_hand_wake waiting_in_hand split: if_splits\<close>)

lemma pool_inv_step:
  assumes st: "step a s = Inr s'" and inv: "pool_inv s"
  shows "pool_inv s'"
proof -
  from inv have li: "lock_inv s" and cs: "cs_inv s" and ex: "exit_inv s" and fi: "fifo_inv s"
    and fl: "flight_inv s" and wk: "wake_inv s" and on: "one_inv s"
    by (simp_all add: pool_inv_def)
  show ?thesis
    unfolding pool_inv_def
    using lock_inv_step[OF st li] cs_inv_step[OF st li cs] exit_inv_step[OF st ex]
      fifo_inv_step[OF st fi] flight_inv_step[OF st li cs fl] wake_inv_step[OF st li cs wk]
      one_inv_step[OF st li cs on]
    by simp
qed

lemma pool_inv_exec: "exec tr s = Inr s' \<Longrightarrow> pool_inv s \<Longrightarrow> pool_inv s'"
proof (induction tr arbitrary: s)
  case Nil
  then show ?case by simp
next
  case (Cons a tr)
  from Cons.prems(1) obtain s1 where a: "step a s = Inr s1" and r: "exec tr s1 = Inr s'"
    by (auto split: sum.splits)
  from a Cons.prems(2) have "pool_inv s1" by (rule pool_inv_step)
  with r show ?case by (rule Cons.IH)
qed

lemma inflight_replicate: "inflight (replicate n AtLock) = {#}"
  by (induction n) (auto simp: inflight_def)

lemma pool_inv_ThreadPool: "pool_inv (ThreadPool n w)"
  by (auto simp: pool_inv_def ThreadPool_def lock_inv_def locked_by_def cs_inv_def exit_inv_def
      fifo_inv_def flight_inv_def inflight_replicate wake_inv_def one_inv_def)

lemma pool_inv_reachable: "exec tr (ThreadPool n w) = Inr s \<Longrightarrow> pool_inv s"
  by (rule pool_inv_exec[OF _ pool_inv_ThreadPool])

lemma exec_length: "exec tr s = Inr s' \<Longrightarrow> length (workers s') = length (workers s)"
proof (induction tr arbitrary: s)
  case Nil
  then show ?case by simp
next
  case (Cons a tr)
  then show ?case by (auto split: sum.splits dest: step_length)
qed

lemma exec_append:
  "exec (tr1 @ tr2) s = (case exec tr1 s of Inl h \<Rightarrow> Inl h | Inr s1 \<Rightarrow> exec tr2 s1)"
  by (induction tr1 arbitrary: s) (auto split: sum.splits)




lemma shouldStop_work_at: "work_at i p s = Inr s' \<Longrightarrow> shouldStop s' = shouldStop s"
  by (cases p) (auto split: if_splits list.splits task.splits prod.splits)

lemma shouldStop_step: "step a s = Inr s' \<Longrightarrow> shouldStop s \<Longrightarrow> shouldStop s'"
  by (cases a) (auto simp: work_def shouldStop_work_at split: if_splits)

lemma shouldStop_exec: "exec tr s = Inr s' \<Longrightarrow> shouldStop s \<Longrightarrow> shouldStop s'"
proof (induction tr arbitrary: s)
  case Nil
  then show ?case by simp
next
  case (Cons a tr)
  then show ?case by (auto split: sum.splits dest: shouldStop_step)
qed







text \<open>Facts about single steps and runs used below.\<close>

lemma step_defined:
  assumes inv: "pool_inv s"
  shows "step a s \<noteq> Inl UndefinedBehaviour"
proof
  assume u: "step a s = Inl UndefinedBehaviour"
  then obtain i where a: "a = Work i" and i: "i < length (workers s)"
    and p: "workers s ! i = AtPop" and q: "runqueue s = []"
  proof (cases a)
    case (Work i)
    with u have w: "work i s = Inl UndefinedBehaviour" by simp
    then have i: "i < length (workers s)" by (auto simp: work_def split: if_splits)
    with w have at: "work_at i (workers s ! i) s = Inl UndefinedBehaviour"
      by (simp add: work_def)
    then have "workers s ! i = AtPop \<and> runqueue s = []"
      by (cases "workers s ! i") (auto split: if_splits list.splits task.splits prod.splits)
    with Work i that show ?thesis by blast
  qed (auto split: if_splits)
  from inv have li: "lock_inv s" and cs: "cs_inv s" by (simp_all add: pool_inv_def)
  from li i p have "queueLock s = Some i" by (simp add: lock_inv_self)
  with cs p q show False by (simp add: cs_inv_def)
qed

lemma exec_defined: "pool_inv s \<Longrightarrow> exec tr s \<noteq> Inl UndefinedBehaviour"
proof (induction tr arbitrary: s)
  case Nil
  then show ?case by simp
next
  case (Cons a tr)
  show ?case
  proof (cases "step a s")
    case (Inl h)
    with step_defined[OF Cons.prems, of a] show ?thesis by simp
  next
    case (Inr s1)
    with Cons.prems have "pool_inv s1" by (simp add: pool_inv_step)
    from Cons.IH[OF this] Inr show ?thesis by simp
  qed
qed

lemma zero_step:
  assumes "step a s = Inr s'" and "workers s = []" and "queueLock s = None"
  shows "workers s' = [] \<and> queueLock s' = None \<and> finished s' = finished s \<and>
         taken s' = taken s \<and> world s' = world s \<and>
         (runqueue s = submitted s \<longrightarrow> runqueue s' = submitted s')"
  using assms by (cases a) (auto simp: work_def split: if_splits)

lemma zero_exec:
  "exec tr s = Inr s' \<Longrightarrow> workers s = [] \<Longrightarrow> queueLock s = None \<Longrightarrow> runqueue s = submitted s
   \<Longrightarrow> workers s' = [] \<and> queueLock s' = None \<and> finished s' = finished s \<and>
         taken s' = taken s \<and> world s' = world s \<and> runqueue s' = submitted s'"
proof (induction tr arbitrary: s)
  case Nil
  then show ?case by simp
next
  case (Cons a tr)
  from Cons.prems(1) obtain s1 where a: "step a s = Inr s1" and r: "exec tr s1 = Inr s'"
    by (auto split: sum.splits)
  from zero_step[OF a Cons.prems(2,3)] Cons.prems(4)
  have z: "workers s1 = []" "queueLock s1 = None" "runqueue s1 = submitted s1"
    and e: "finished s1 = finished s" "taken s1 = taken s" "world s1 = world s"
    by simp_all
  from Cons.IH[OF r z] e show ?case by simp
qed

lemma live_replicate: "live (replicate n AtLock) = n"
  by (induction n) (auto simp: live_def)

lemma live_update:
  "i < length ws \<Longrightarrow> exited p = exited (ws ! i) \<Longrightarrow> live (ws[i := p]) = live ws"
proof (induction ws arbitrary: i)
  case Nil
  then show ?case by simp
next
  case (Cons a ws)
  then show ?case by (cases i) (auto simp: live_def)
qed

lemma sleepers_none: "\<not> list_ex waiting ws \<Longrightarrow> sleepers ws = 0"
  by (induction ws) (auto simp: sleepers_def)

lemma sleepers_wake:
  "j < length ws \<Longrightarrow> waiting (ws ! j) \<Longrightarrow> \<not> waiting p
   \<Longrightarrow> sleepers (ws[j := p]) = sleepers ws - 1"
proof (induction ws arbitrary: j)
  case Nil
  then show ?case by simp
next
  case (Cons a ws)
  show ?case
  proof (cases j)
    case 0
    with Cons.prems show ?thesis by (simp add: sleepers_def)
  next
    case (Suc k)
    with Cons.prems have k: "k < length ws" "waiting (ws ! k)" by simp_all
    from Cons.IH[OF k Cons.prems(3)] have ih: "sleepers (ws[k := p]) = sleepers ws - 1" .
    from k have "0 < sleepers ws"
      by (auto simp: sleepers_def filter_empty_conv dest: nth_mem)
    with ih Suc show ?thesis by (simp add: sleepers_def)
  qed
qed

lemma some_waiter: "list_ex waiting ws \<Longrightarrow> \<exists>j<length ws. waiting (ws ! j)"
  by (auto simp: list_ex_iff in_set_conv_nth)

lemma stores_joins: "stores (map Join xs) = 0"
  by (induction xs) auto

lemma exited_stays_step:
  assumes st: "step a s = Inr s'" and i: "i < length (workers s)"
    and e: "workers s ! i = Exited"
  shows "workers s' ! i = Exited"
proof (cases a)
  case (Work j)
  with st obtain p where j: "j < length (workers s)" and p: "workers s ! j = p"
    and at: "work_at j p s = Inr s'" by (auto elim: work_cases)
  from at p e have ne: "j \<noteq> i" by (cases p) auto
  from at ne e show ?thesis
    by (cases p) (auto split: if_splits list.splits task.splits prod.splits)
next
  case (Spurious j)
  with st e have "j \<noteq> i" by (auto split: if_splits)
  with st Spurious e show ?thesis by (auto split: if_splits)
next
  case (NotifyOne j)
  show ?thesis
  proof (cases "list_ex waiting (workers s)")
    case True
    with st NotifyOne e have "j \<noteq> i" by (auto split: if_splits)
    with st NotifyOne e show ?thesis by (auto split: if_splits)
  next
    case False
    with st NotifyOne e show ?thesis by (auto split: if_splits)
  qed
next
  case NotifyAll
  with st i e show ?thesis by auto
qed (use st e in \<open>auto split: if_splits\<close>)

lemma exited_stays_exec:
  "exec tr s = Inr s' \<Longrightarrow> i < length (workers s) \<Longrightarrow> workers s ! i = Exited
   \<Longrightarrow> workers s' ! i = Exited"
proof (induction tr arbitrary: s)
  case Nil
  then show ?case by simp
next
  case (Cons a tr)
  from Cons.prems(1) obtain s1 where a: "step a s = Inr s1" and r: "exec tr s1 = Inr s'"
    by (auto split: sum.splits)
  from exited_stays_step[OF a Cons.prems(2,3)] have e: "workers s1 ! i = Exited" .
  from step_length[OF a] Cons.prems(2) have "i < length (workers s1)" by simp
  from Cons.IH[OF r this e] show ?case .
qed

lemma shouldStop_kept:
  "step a s = Inr s' \<Longrightarrow> a \<noteq> StoreStop \<Longrightarrow> shouldStop s' = shouldStop s"
  by (cases a) (auto simp: work_def shouldStop_work_at split: if_splits)

lemma blocked_stays_step:
  assumes st: "step a s = Inr s'" and nw: "\<not> wakes a" and i: "i < length (workers s)"
    and b: "workers s ! i = Blocked"
  shows "workers s' ! i = Blocked"
proof (cases a)
  case (Work j)
  with st obtain p where j: "j < length (workers s)" and p: "workers s ! j = p"
    and at: "work_at j p s = Inr s'" by (auto elim: work_cases)
  from at p b have ne: "j \<noteq> i" by (cases p) auto
  from at ne b show ?thesis
    by (cases p) (auto split: if_splits list.splits task.splits prod.splits)
qed (use st nw b in \<open>auto split: if_splits\<close>)

lemma blocked_stays_exec:
  "exec tr s = Inr s' \<Longrightarrow> list_all (\<lambda>a. \<not> wakes a) tr \<Longrightarrow> i < length (workers s)
   \<Longrightarrow> workers s ! i = Blocked \<Longrightarrow> workers s' ! i = Blocked"
proof (induction tr arbitrary: s)
  case Nil
  then show ?case by simp
next
  case (Cons a tr)
  from Cons.prems(1) obtain s1 where a: "step a s = Inr s1" and r: "exec tr s1 = Inr s'"
    by (auto split: sum.splits)
  from Cons.prems(2) have na: "\<not> wakes a" and nt: "list_all (\<lambda>a. \<not> wakes a) tr" by simp_all
  from blocked_stays_step[OF a na Cons.prems(3,4)] have b: "workers s1 ! i = Blocked" .
  from step_length[OF a] Cons.prems(3) have "i < length (workers s1)" by simp
  from Cons.IH[OF r nt this b] show ?case .
qed

lemma replicate_update_same: "(replicate n x)[i := x] = replicate n x"
  by (induction n arbitrary: i) (auto split: nat.splits)

section \<open>The claims\<close>

subsection \<open>C1: a task that throws\<close>

text \<open>
  Claim C1. When a task run by a worker throws, the exception is caught in \<open>work\<close>
  (lines 63-72) and one line naming the worker is written to \<open>std::cerr\<close>; nothing
  propagates: the step yields a successor state in which the worker is at the top of
  its loop, the number of live workers is the same, and queue, mutex and flag are
  untouched. The worker goes on: with the mutex free and a callable \<open>g\<close> at the front
  of the queue, its next seven steps pop \<open>g\<close> and run it to its end.
\<close>

theorem task_failure_is_isolated:
  assumes "i < length (workers s)" and "workers s ! i = Running f"
    and "f (world s) = (out, w')" and "out \<noteq> Returned"
  shows "\<exists>s'. work i s = Inr s' \<and>
           workers s' = (workers s)[i := AtLock] \<and>
           report_of i out \<noteq> [] \<and>
           stderr s' = stderr s @ report_of i out \<and>
           world s' = w' \<and>
           live (workers s') = live (workers s) \<and>
           runqueue s' = runqueue s \<and> queueLock s' = queueLock s \<and>
           shouldStop s' = shouldStop s \<and>
           (\<forall>g q out2 w2. queueLock s = None \<and> runqueue s = Fn g # q \<and> g w' = (out2, w2) \<longrightarrow>
              (\<exists>s2. exec [Work i, Work i, Work i, Work i, Work i, Work i, Work i] s' = Inr s2 \<and>
                 workers s2 = (workers s)[i := AtLock] \<and>
                 runqueue s2 = q \<and> world s2 = w2 \<and>
                 finished s2 = finished s @ [Fn f, Fn g] \<and>
                 stderr s2 = stderr s @ report_of i out @ report_of i out2))"
  using assms by (cases out) (auto simp: work_def live_update)

text \<open>One worker, a task that throws \<open>std::runtime_error\<close>, then the task of \<open>main\<close> with
  \<open>i = 2\<close>: the report is written and the second task prints.\<close>

theorem task_failure_is_isolated_witness:
  "exec (submitTask (Fn failing_task) 0 @ submitTask (Fn (main_task 2)) 0 @
         [Work 0, Work 0, Work 0, Work 0, Work 0, Work 0, Work 0,
          Work 0, Work 0, Work 0, Work 0, Work 0, Work 0, Work 0])
     (ThreadPool 1 []) =
   Inr \<lparr>shouldStop = False, workers = [AtLock], joinable = [True], runqueue = [],
        queueLock = None, signals_due = 0, world = [2], stderr = [Exception 0 ''boom''],
        submitted = [Fn failing_task, Fn (main_task 2)],
        taken = [Fn failing_task, Fn (main_task 2)],
        finished = [Fn failing_task, Fn (main_task 2)]\<rparr>"
  using task_failure_is_isolated[of 0
      "projr (exec (submitTask (Fn failing_task) 0 @ submitTask (Fn (main_task 2)) 0 @
         [Work 0, Work 0, Work 0, Work 0, Work 0, Work 0]) (ThreadPool 1 []))"
      failing_task "ThrewStd ''boom''" "[]"]
  by (simp add: ThreadPool_def submitTask_def work_def failing_task_def main_task_def)

text \<open>The same with a task that throws something that is no \<open>std::exception\<close>.\<close>

lemma unknown_exception_run:
  "exec (submitTask (Fn throwing_task) 0 @ submitTask (Fn (main_task 2)) 0 @
         [Work 0, Work 0, Work 0, Work 0, Work 0, Work 0, Work 0,
          Work 0, Work 0, Work 0, Work 0, Work 0, Work 0, Work 0])
     (ThreadPool 1 []) =
   Inr \<lparr>shouldStop = False, workers = [AtLock], joinable = [True], runqueue = [],
        queueLock = None, signals_due = 0, world = [2], stderr = [UnknownException 0],
        submitted = [Fn throwing_task, Fn (main_task 2)],
        taken = [Fn throwing_task, Fn (main_task 2)],
        finished = [Fn throwing_task, Fn (main_task 2)]\<rparr>"
  by (simp add: ThreadPool_def submitTask_def work_def throwing_task_def main_task_def)

subsection \<open>C2: submission after shutdown has begun\<close>

text \<open>
  Claim C2. A task submitted after the pool has begun to stop is rejected and never
  executed. The code does not do this: \<open>submitTask\<close> never reads \<open>shouldStop\<close>, although
  the member is documented as telling whether the pool should still accept work. In
  the first run the flag is set while the worker sleeps; the submission that follows
  is accepted and queued. In the second the flag is set while the worker runs a task;
  the task submitted afterwards is accepted, popped and run before the worker returns.
\<close>

theorem submit_after_stop_is_accepted:
  "exec ([Work 0, Work 0, Work 0, StoreStop] @ submitTask (Fn (main_task 7)) 0)
     (ThreadPool 1 []) =
   Inr \<lparr>shouldStop = True, workers = [AtLock], joinable = [True],
        runqueue = [Fn (main_task 7)], queueLock = None, signals_due = 0, world = [],
        stderr = [], submitted = [Fn (main_task 7)], taken = [], finished = []\<rparr> \<and>
   exec (submitTask (Fn (main_task 1)) 0 @
         [Work 0, Work 0, Work 0, Work 0, Work 0, Work 0, StoreStop, NotifyAll] @
         submitTask (Fn (main_task 7)) 0 @
         [Work 0, Work 0, Work 0, Work 0, Work 0, Work 0, Work 0, Work 0,
          Work 0, Work 0, Work 0, Join 0])
     (ThreadPool 1 []) =
   Inr \<lparr>shouldStop = True, workers = [Exited], joinable = [False], runqueue = [],
        queueLock = None, signals_due = 0, world = [1, 7], stderr = [],
        submitted = [Fn (main_task 1), Fn (main_task 7)],
        taken = [Fn (main_task 1), Fn (main_task 7)],
        finished = [Fn (main_task 1), Fn (main_task 7)]\<rparr>"
  by (simp add: ThreadPool_def submitTask_def work_def main_task_def)

subsection \<open>C3: the blocking dequeue\<close>

text \<open>
  Claim C3. The dequeue step of the worker loop (lines 41-57) waits until the queue is
  non-empty or shutdown is requested; with a non-empty queue it removes and returns
  the front task, and with an empty queue and shutdown requested the worker leaves its
  loop. The code attempts this (the wait of lines 44-46 with its predicate, the comment
  "Wake all sleeping threads" on line 90) and does it in the first two runs below: a
  sleeping worker is woken by a submission and pops the task, and a sleeping worker
  is woken by the shutdown, finds the flag set and the queue empty, returns and is
  joined. It misses it in the third: \<open>shouldStop\<close> is stored (lines 88, 114) without the
  mutex, so the store and \<open>notify_all\<close> can both fall between the worker's evaluation of
  the predicate (false) and its blocking. Then shutdown is requested, the queue is
  empty, and the worker sleeps: it cannot move and \<open>join\<close> cannot return.
\<close>

theorem wait_misses_shutdown:
  "exec ([Work 0, Work 0, Work 0] @ submitTask (Fn (main_task 1)) 0 @
         [Work 0, Work 0, Work 0, Work 0, Work 0]) (ThreadPool 1 []) =
   Inr \<lparr>shouldStop = False, workers = [Holding (Fn (main_task 1))], joinable = [True],
        runqueue = [], queueLock = None, signals_due = 0, world = [], stderr = [],
        submitted = [Fn (main_task 1)], taken = [Fn (main_task 1)], finished = []\<rparr> \<and>
   exec [Work 0, Work 0, Work 0, StoreStop, NotifyAll, Work 0, Work 0, Work 0, Join 0]
     (ThreadPool 1 ([]::nat list)) =
   Inr \<lparr>shouldStop = True, workers = [Exited], joinable = [False], runqueue = [],
        queueLock = None, signals_due = 0, world = [], stderr = [], submitted = [],
        taken = [], finished = []\<rparr> \<and>
   exec [Work 0, Work 0, StoreStop, NotifyAll, Work 0] (ThreadPool 1 ([]::nat list)) =
   Inr \<lparr>shouldStop = True, workers = [Blocked], joinable = [True], runqueue = [],
        queueLock = None, signals_due = 0, world = [], stderr = [], submitted = [],
        taken = [], finished = []\<rparr> \<and>
   exec [Work 0, Work 0, StoreStop, NotifyAll, Work 0, Work 0] (ThreadPool 1 ([]::nat list)) =
   Inl NotEnabled \<and>
   exec [Work 0, Work 0, StoreStop, NotifyAll, Work 0, Join 0] (ThreadPool 1 ([]::nat list)) =
   Inl NotEnabled"
  by (simp add: ThreadPool_def submitTask_def work_def)

text \<open>
  The sleep is for good unless something else wakes the worker: in no continuation
  without a spurious wake-up or a further notification does a sleeping worker leave
  the wait, so a \<open>join\<close> of it after such a continuation does not return. The remaining
  actions of both shutdown bodies are joins.
\<close>

lemma sleeping_worker_is_not_joined:
  assumes "exec tr s = Inr s'" and "list_all (\<lambda>a. \<not> wakes a) tr"
    and "i < length (workers s)" and "workers s ! i = Blocked"
  shows "workers s' ! i = Blocked \<and> work i s' = Inl NotEnabled \<and>
         (\<exists>h. step (Join i) s' = Inl h)"
proof -
  from blocked_stays_exec[OF assms] have b: "workers s' ! i = Blocked" .
  from exec_length[OF assms(1)] assms(3) have i: "i < length (workers s')" by simp
  from b i show ?thesis by (simp add: work_def)
qed

text \<open>
  What the dequeue step does once the predicate is evaluated, for a worker at that
  point: with the flag clear and the queue empty it blocks and evaluates the predicate
  again after a wake-up; with a non-empty queue it removes the front task and holds
  it, whatever the flag is; with the queue empty and the flag set it releases the mutex
  and returns.
\<close>

lemma dequeue_after_predicate:
  assumes "i < length (workers s)" and "workers s ! i = EvalPred"
  shows "(\<not> shouldStop s \<and> runqueue s = [] \<longrightarrow>
            exec [Work i, Work i] s =
              Inr (s\<lparr>queueLock := None, workers := (workers s)[i := Blocked]\<rparr>) \<and>
            work i (s\<lparr>queueLock := None, workers := (workers s)[i := Blocked]\<rparr>) =
              Inl NotEnabled \<and>
            exec [Spurious i, Work i]
                 (s\<lparr>queueLock := None, workers := (workers s)[i := Blocked]\<rparr>) =
              Inr (s\<lparr>queueLock := Some i\<rparr>)) \<and>
         (\<forall>t q. runqueue s = t # q \<longrightarrow>
            exec [Work i, Work i, Work i, Work i] s =
              Inr (s\<lparr>runqueue := q, queueLock := None, taken := taken s @ [t],
                     workers := (workers s)[i := Holding t]\<rparr>) \<and>
            exec [Work i, StoreStop, Work i, Work i, Work i] s =
              Inr (s\<lparr>shouldStop := True, runqueue := q, queueLock := None,
                     taken := taken s @ [t], workers := (workers s)[i := Holding t]\<rparr>)) \<and>
         (shouldStop s \<and> runqueue s = [] \<longrightarrow>
            exec [Work i, Work i] s =
              Inr (s\<lparr>queueLock := None, workers := (workers s)[i := Exited]\<rparr>) \<and>
            work i (s\<lparr>queueLock := None, workers := (workers s)[i := Exited]\<rparr>) =
              Inl NotEnabled)"
  using assms by (auto simp: work_def list_update_same_conv)

subsection \<open>C4: destructor and \<open>waitForAll\<close>\<close>




subsection \<open>C5: the shutdown flag\<close>

text \<open>
  Claim C5 says that the flag is written at most once per lifecycle. The destructor and
  \<open>waitForAll\<close> each store it, so a pool on which \<open>waitForAll\<close> is called and which is
  then destroyed has it stored twice: with no workers the two bodies run through, and
  with one worker the second store happens before the second \<open>join\<close>.
\<close>

theorem shouldStop_stored_twice:
  "exec (waitForAll (ThreadPool 0 ([]::nat list)) @ ThreadPool_dtor (ThreadPool 0 ([]::nat list)))
     (ThreadPool 0 []) =
   Inr \<lparr>shouldStop = True, workers = [], joinable = [], runqueue = [], queueLock = None,
        signals_due = 0, world = [], stderr = [], submitted = [], taken = [],
        finished = []\<rparr> \<and>
   stores (waitForAll (ThreadPool 0 ([]::nat list)) @ ThreadPool_dtor (ThreadPool 0 ([]::nat list)))
     = 2 \<and>
   exec [StoreStop, NotifyAll, Work 0, Work 0, Work 0, Join 0, StoreStop]
     (ThreadPool 1 ([]::nat list)) =
   Inr \<lparr>shouldStop = True, workers = [Exited], joinable = [False], runqueue = [],
        queueLock = None, signals_due = 0, world = [], stderr = [], submitted = [],
        taken = [], finished = []\<rparr> \<and>
   stores ([StoreStop, NotifyAll, Work 0, Work 0, Work 0, Join 0, StoreStop]
             :: nat list action list) = 2"
  by (simp add: ThreadPool_def waitForAll_def ThreadPool_dtor_def work_def)

text \<open>
  Claim C5, amended. The flag starts false; every store writes true, the destructor and
  \<open>waitForAll\<close> store it once each, and no other action changes it, so once true it
  stays true in every run. A worker that finds the flag set and the queue empty at
  line 49 returns, and a worker that has returned stays so and never moves again.
\<close>

theorem shouldStop_is_monotone:
  "\<not> shouldStop (ThreadPool n w) \<and>
   step StoreStop s = Inr (s\<lparr>shouldStop := True\<rparr>) \<and>
   (step a s = Inr u \<and> a \<noteq> StoreStop \<longrightarrow> shouldStop u = shouldStop s) \<and>
   (exec tr s = Inr v \<and> shouldStop s \<longrightarrow> shouldStop v) \<and>
   stores (ThreadPool_dtor s) = 1 \<and> stores (waitForAll s) = 1 \<and>
   (i < length (workers s) \<and> workers s ! i = Check49 \<and> shouldStop s \<and> runqueue s = [] \<longrightarrow>
      work i s = Inr (s\<lparr>queueLock := None, workers := (workers s)[i := Exited]\<rparr>)) \<and>
   (exec tr s = Inr v \<and> i < length (workers s) \<and> workers s ! i = Exited \<longrightarrow>
      workers v ! i = Exited \<and> work i v = Inl NotEnabled)"
proof (intro conjI impI)
  assume a: "exec tr s = Inr v \<and> i < length (workers s) \<and> workers s ! i = Exited"
  then show e: "workers v ! i = Exited" by (auto intro: exited_stays_exec)
  from a exec_length[of tr s v] have "i < length (workers v)" by simp
  with e show "work i v = Inl NotEnabled" by (simp add: work_def)
qed (auto simp: ThreadPool_def ThreadPool_dtor_def waitForAll_def stores_joins work_def
       shouldStop_kept shouldStop_exec)


text \<open>One worker that finds the flag set and returns; later notifications and
  submissions leave it returned and the flag set.\<close>

theorem shouldStop_is_monotone_witness:
  "work 0 (projr (exec [StoreStop, Work 0, Work 0] (ThreadPool 1 []))) =
   Inr \<lparr>shouldStop = True, workers = [Exited], joinable = [True], runqueue = [],
        queueLock = None, signals_due = 0, world = [], stderr = [], submitted = [],
        taken = [], finished = []\<rparr> \<and>
   shouldStop (projr (step NotifyAll (projr (exec [StoreStop, Work 0, Work 0, Work 0]
     (ThreadPool 1 []))))) \<and>
   workers (projr (exec (NotifyAll # submitTask (Fn (main_task 1)) 0 @ [Join 0])
     (projr (exec [StoreStop, Work 0, Work 0, Work 0] (ThreadPool 1 []))))) ! 0 = Exited \<and>
   shouldStop (projr (exec (NotifyAll # submitTask (Fn (main_task 1)) 0 @ [Join 0])
     (projr (exec [StoreStop, Work 0, Work 0, Work 0] (ThreadPool 1 [])))))"
  using shouldStop_is_monotone[where
      s = "projr (exec [StoreStop, Work 0, Work 0] (ThreadPool 1 []))" and i = 0]
    shouldStop_is_monotone[where
      s = "projr (exec [StoreStop, Work 0, Work 0, Work 0] (ThreadPool 1 []))" and i = 0 and
      a = NotifyAll and
      u = "projr (step NotifyAll (projr (exec [StoreStop, Work 0, Work 0, Work 0]
              (ThreadPool 1 []))))" and
      tr = "NotifyAll # submitTask (Fn (main_task 1)) 0 @ [Join 0]" and
      v = "projr (exec (NotifyAll # submitTask (Fn (main_task 1)) 0 @ [Join 0])
              (projr (exec [StoreStop, Work 0, Work 0, Work 0] (ThreadPool 1 []))))"]
  by (simp add: ThreadPool_def submitTask_def work_def)

subsection \<open>C6: first in, first out\<close>

text \<open>
  Claim C6. Submission order is dequeue order for the whole pool: in every reachable
  state the tasks popped so far, in the order of the pops, followed by the queue, are
  the tasks submitted so far in submission order. With exactly one worker the tasks
  submitted so far are the finished ones, then the one in the worker's hand (if any),
  then the queue: when a task \<open>B\<close> is about to start or running, every task enqueued
  before \<open>B\<close> is already finished, so \<open>A\<close> enqueued before \<open>B\<close> completes before \<open>B\<close> starts.
\<close>

theorem fifo_dequeue_order:
  assumes "exec tr (ThreadPool n w) = Inr s"
  shows "taken s @ runqueue s = submitted s \<and>
         (n = 1 \<longrightarrow> submitted s = finished s @ in_hand (workers s ! 0) @ runqueue s)"
proof -
  from pool_inv_reachable[OF assms] have fi: "fifo_inv s" and on: "one_inv s"
    by (simp_all add: pool_inv_def)
  from exec_length[OF assms] have "length (workers s) = n" by (simp add: ThreadPool_def)
  with fi on show ?thesis by (auto simp: fifo_inv_def one_inv_def)
qed

text \<open>Three tasks, one worker, stopped while the second task runs: the first is
  finished, the third is still queued.\<close>

theorem fifo_dequeue_order_witness:
  "submitted (projr (exec (submitTask (Fn (main_task 1)) 0 @ submitTask (Fn (main_task 2)) 0 @
       submitTask (Fn (main_task 3)) 0 @
       [Work 0, Work 0, Work 0, Work 0, Work 0, Work 0, Work 0,
        Work 0, Work 0, Work 0, Work 0, Work 0, Work 0]) (ThreadPool 1 []))) =
     [Fn (main_task 1)] @ [Fn (main_task 2)] @ [Fn (main_task 3)] \<and>
   finished (projr (exec (submitTask (Fn (main_task 1)) 0 @ submitTask (Fn (main_task 2)) 0 @
       submitTask (Fn (main_task 3)) 0 @
       [Work 0, Work 0, Work 0, Work 0, Work 0, Work 0, Work 0,
        Work 0, Work 0, Work 0, Work 0, Work 0, Work 0]) (ThreadPool 1 []))) =
     [Fn (main_task 1)] \<and>
   workers (projr (exec (submitTask (Fn (main_task 1)) 0 @ submitTask (Fn (main_task 2)) 0 @
       submitTask (Fn (main_task 3)) 0 @
       [Work 0, Work 0, Work 0, Work 0, Work 0, Work 0, Work 0,
        Work 0, Work 0, Work 0, Work 0, Work 0, Work 0]) (ThreadPool 1 []))) =
     [Running (main_task 2)]"
  using fifo_dequeue_order[of
      "submitTask (Fn (main_task 1)) 0 @ submitTask (Fn (main_task 2)) 0 @
       submitTask (Fn (main_task 3)) 0 @
       [Work 0, Work 0, Work 0, Work 0, Work 0, Work 0, Work 0,
        Work 0, Work 0, Work 0, Work 0, Work 0, Work 0]" 1 "[]"
      "projr (exec (submitTask (Fn (main_task 1)) 0 @ submitTask (Fn (main_task 2)) 0 @
       submitTask (Fn (main_task 3)) 0 @
       [Work 0, Work 0, Work 0, Work 0, Work 0, Work 0, Work 0,
        Work 0, Work 0, Work 0, Work 0, Work 0, Work 0]) (ThreadPool 1 []))"]
  by (simp add: ThreadPool_def submitTask_def work_def main_task_def)

subsection \<open>C7: the constructor\<close>

text \<open>
  Claim C7. Constructing a pool with worker count \<open>n\<close> starts exactly \<open>n\<close> workers, each
  running the dequeue loop, before the constructor returns: the constructed pool has
  \<open>n\<close> live workers at the top of the loop, and every worker \<open>i < n\<close> does run it. Its
  first step acquires the mutex, its first three steps take it into the wait on the
  empty queue, and when a callable is enqueued first its seven steps pop the callable
  and run it to its end. There is no worker \<open>i\<close> with \<open>n \<le> i\<close>. \<open>n = 0\<close> is accepted and
  gives a pool that accepts submitted work but never executes a task: in every run of
  such a pool nothing is popped, nothing is finished, the outside state stays as it
  was, the queue holds all that was submitted, and an enqueue is accepted.
\<close>

theorem constructor_starts_workers:
  "workers (ThreadPool n w) = replicate n AtLock \<and>
   length (workers (ThreadPool n w)) = n \<and>
   live (workers (ThreadPool n w)) = n \<and>
   \<not> shouldStop (ThreadPool n w) \<and>
   (i < n \<longrightarrow>
      work i (ThreadPool n w) =
        Inr ((ThreadPool n w)\<lparr>queueLock := Some i,
               workers := (replicate n AtLock)[i := EvalPred]\<rparr>) \<and>
      exec [Work i, Work i, Work i] (ThreadPool n w) =
        Inr ((ThreadPool n w)\<lparr>workers := (replicate n AtLock)[i := Blocked]\<rparr>) \<and>
      (f w = (out, w') \<longrightarrow>
         exec [Enqueue (Fn f), Work i, Work i, Work i, Work i, Work i, Work i, Work i]
           (ThreadPool n w) =
         Inr ((ThreadPool n w)\<lparr>signals_due := 1, world := w', stderr := report_of i out,
                submitted := [Fn f], taken := [Fn f], finished := [Fn f]\<rparr>))) \<and>
   (n \<le> i \<longrightarrow> work i (ThreadPool n w) = Inl NotEnabled) \<and>
   (exec tr (ThreadPool 0 w) = Inr s \<longrightarrow>
      finished s = [] \<and> taken s = [] \<and> world s = w \<and> runqueue s = submitted s \<and>
      step (Enqueue t) s =
        Inr (s\<lparr>runqueue := runqueue s @ [t], signals_due := Suc (signals_due s),
               submitted := submitted s @ [t]\<rparr>))"
proof (intro conjI impI)
  assume r: "exec tr (ThreadPool 0 w) = Inr s"
  have "workers s = [] \<and> queueLock s = None \<and> finished s = finished (ThreadPool 0 w) \<and>
        taken s = taken (ThreadPool 0 w) \<and> world s = world (ThreadPool 0 w) \<and>
        runqueue s = submitted s"
    by (rule zero_exec[OF r]) (simp_all add: ThreadPool_def)
  then show "finished s = []" "taken s = []" "world s = w" "runqueue s = submitted s"
    "step (Enqueue t) s =
        Inr (s\<lparr>runqueue := runqueue s @ [t], signals_due := Suc (signals_due s),
               submitted := submitted s @ [t]\<rparr>)"
    by (simp_all add: ThreadPool_def)
next
  assume i: "i < n"
  then show "work i (ThreadPool n w) =
        Inr ((ThreadPool n w)\<lparr>queueLock := Some i,
               workers := (replicate n AtLock)[i := EvalPred]\<rparr>)"
    by (simp add: ThreadPool_def work_def)
  from i show "exec [Work i, Work i, Work i] (ThreadPool n w) =
        Inr ((ThreadPool n w)\<lparr>workers := (replicate n AtLock)[i := Blocked]\<rparr>)"
    by (simp add: ThreadPool_def work_def)
  assume "f w = (out, w')"
  with i show "exec [Enqueue (Fn f), Work i, Work i, Work i, Work i, Work i, Work i, Work i]
           (ThreadPool n w) =
         Inr ((ThreadPool n w)\<lparr>signals_due := 1, world := w', stderr := report_of i out,
                submitted := [Fn f], taken := [Fn f], finished := [Fn f]\<rparr>)"
    by (simp add: ThreadPool_def work_def replicate_update_same)
qed (simp_all add: ThreadPool_def live_replicate work_def)

text \<open>The pool of \<open>main\<close> has eight workers: worker 3 runs the task of \<open>main\<close> with \<open>i = 5\<close>,
  and there is no worker 8; a pool without workers keeps a submitted task queued
  through a shutdown.\<close>

theorem constructor_starts_workers_witness:
  "workers (ThreadPool 8 ([]::nat list)) = replicate 8 AtLock \<and>
   world (projr (exec [Enqueue (Fn (main_task 5)), Work 3, Work 3, Work 3, Work 3, Work 3,
            Work 3, Work 3] (ThreadPool 8 []))) = [5] \<and>
   work 8 (ThreadPool 8 ([]::nat list)) = Inl NotEnabled \<and>
   world (projr (exec (submitTask (Fn (main_task 1)) 0 @ [StoreStop, NotifyAll])
            (ThreadPool 0 []))) = [] \<and>
   runqueue (projr (exec (submitTask (Fn (main_task 1)) 0 @ [StoreStop, NotifyAll])
            (ThreadPool 0 []))) = [Fn (main_task 1)]"
proof -
  note a = constructor_starts_workers[where n = 8 and w = "[]::nat list" and i = 3 and
      f = "main_task 5" and out = Returned and w' = "[5]"]
  note b = constructor_starts_workers[where n = 8 and w = "[]::nat list" and i = 8]
  note c = constructor_starts_workers[where n = 0 and w = "[]::nat list" and
      tr = "submitTask (Fn (main_task 1)) 0 @ [StoreStop, NotifyAll]" and
      s = "projr (exec (submitTask (Fn (main_task 1)) 0 @ [StoreStop, NotifyAll])
             (ThreadPool 0 []))"]
  have lt: "(3::nat) < 8" and le: "(8::nat) \<le> 8" by simp_all
  have call: "main_task 5 [] = (Returned, [5])" by (simp add: main_task_def)
  have run: "exec (submitTask (Fn (main_task 1)) 0 @ [StoreStop, NotifyAll]) (ThreadPool 0 []) =
      Inr (projr (exec (submitTask (Fn (main_task 1)) 0 @ [StoreStop, NotifyAll])
             (ThreadPool 0 ([]::nat list))))"
    by (simp add: ThreadPool_def submitTask_def)
  note a5 = mp[OF a[THEN conjunct2, THEN conjunct2, THEN conjunct2, THEN conjunct2,
      THEN conjunct1] lt]
  note a7 = mp[OF a5[THEN conjunct2, THEN conjunct2] call]
  note b6 = mp[OF b[THEN conjunct2, THEN conjunct2, THEN conjunct2, THEN conjunct2,
      THEN conjunct2, THEN conjunct1] le]
  note c7 = mp[OF c[THEN conjunct2, THEN conjunct2, THEN conjunct2, THEN conjunct2,
      THEN conjunct2, THEN conjunct2] run]
  have 1: "workers (ThreadPool 8 ([]::nat list)) = replicate 8 AtLock"
    by (rule a[THEN conjunct1])
  have 2: "world (projr (exec [Enqueue (Fn (main_task 5)), Work 3, Work 3, Work 3, Work 3,
            Work 3, Work 3, Work 3] (ThreadPool 8 []))) = [5]"
    unfolding a7 by simp
  from c7 have 4: "world (projr (exec (submitTask (Fn (main_task 1)) 0 @ [StoreStop, NotifyAll])
            (ThreadPool 0 ([]::nat list)))) = []"
    by (rule conjunct2[THEN conjunct2, THEN conjunct1])
  have 5: "runqueue (projr (exec (submitTask (Fn (main_task 1)) 0 @ [StoreStop, NotifyAll])
            (ThreadPool 0 ([]::nat list)))) = [Fn (main_task 1)]"
    by (simp add: ThreadPool_def submitTask_def)
  from 1 2 b6 4 5 show ?thesis by blast
qed

subsection \<open>C8: enqueue and signal\<close>

text \<open>
  Claim C8 says that enqueue takes the lock, appends at the back, releases the lock and
  signals exactly one waiter, never fails and blocks only on the lock, and that
  therefore no enqueued task is silently lost. The last part does not hold for every
  pool: a task enqueued into a pool that has no worker, or whose workers have all
  returned, is signalled to nobody and stays in the queue. In the first run the pool
  was constructed with no workers. In the second the only worker has returned and was
  joined; the task is then submitted, the signal finds no waiter, and the worker
  cannot move.
\<close>

theorem enqueued_task_without_worker:
  "exec (submitTask (Fn (main_task 1)) 0) (ThreadPool 0 []) =
   Inr \<lparr>shouldStop = False, workers = [], joinable = [],
        runqueue = [Fn (main_task 1)], queueLock = None, signals_due = 0, world = [],
        stderr = [], submitted = [Fn (main_task 1)], taken = [], finished = []\<rparr> \<and>
   exec ([StoreStop, NotifyAll, Work 0, Work 0, Work 0, Join 0] @
         submitTask (Fn (main_task 1)) 0) (ThreadPool 1 []) =
   Inr \<lparr>shouldStop = True, workers = [Exited], joinable = [False],
        runqueue = [Fn (main_task 1)], queueLock = None, signals_due = 0, world = [],
        stderr = [], submitted = [Fn (main_task 1)], taken = [], finished = []\<rparr> \<and>
   exec ([StoreStop, NotifyAll, Work 0, Work 0, Work 0, Join 0] @
         submitTask (Fn (main_task 1)) 0 @ [Work 0]) (ThreadPool 1 []) = Inl NotEnabled"
  by (simp add: ThreadPool_def submitTask_def work_def)

text \<open>
  Claim C8, amended. \<open>submitTask\<close> appends the task at the back of the queue under the
  mutex, leaves the mutex free and then signals once: one sleeping worker is woken if
  any sleeps. It cannot fail; it cannot proceed only while the mutex is held. In every
  reachable state in which a task is queued, no signal is still due and some worker
  has not returned, some worker is awake: a queued task is never left with every
  remaining worker asleep.
\<close>

theorem submitTask_enqueues_and_signals:
  "(queueLock s = None \<longrightarrow>
      step (Enqueue t) s =
        Inr (s\<lparr>runqueue := runqueue s @ [t], signals_due := Suc (signals_due s),
               submitted := submitted s @ [t]\<rparr>) \<and>
      (\<exists>j s2. exec (submitTask t j) s = Inr s2 \<and>
         runqueue s2 = runqueue s @ [t] \<and> queueLock s2 = None \<and>
         signals_due s2 = signals_due s \<and>
         sleepers (workers s2) = sleepers (workers s) - 1 \<and>
         live (workers s2) = live (workers s) \<and>
         length (workers s2) = length (workers s))) \<and>
   (step (Enqueue t) s = Inl h \<longrightarrow> h = NotEnabled \<and> queueLock s \<noteq> None) \<and>
   (exec tr (ThreadPool n w) = Inr r \<and> runqueue r \<noteq> [] \<and> signals_due r = 0 \<and>
    list_ex (\<lambda>p. \<not> exited p) (workers r) \<longrightarrow> list_ex awake (workers r))"
proof (intro conjI impI)
  assume free: "queueLock s = None"
  then show "step (Enqueue t) s =
        Inr (s\<lparr>runqueue := runqueue s @ [t], signals_due := Suc (signals_due s),
               submitted := submitted s @ [t]\<rparr>)"
    by simp
  show "\<exists>j s2. exec (submitTask t j) s = Inr s2 \<and>
         runqueue s2 = runqueue s @ [t] \<and> queueLock s2 = None \<and>
         signals_due s2 = signals_due s \<and>
         sleepers (workers s2) = sleepers (workers s) - 1 \<and>
         live (workers s2) = live (workers s) \<and>
         length (workers s2) = length (workers s)"
  proof (cases "list_ex waiting (workers s)")
    case True
    from some_waiter[OF this] obtain j where j: "j < length (workers s)"
      and wj: "waiting (workers s ! j)" by blast
    from wj have ne: "\<not> exited (workers s ! j)" by (cases "workers s ! j") auto
    from free True j wj ne show ?thesis
      by (intro exI[of _ j]) (simp add: submitTask_def sleepers_wake live_update)
  next
    case False
    with free show ?thesis
      by (intro exI[of _ 0]) (simp add: submitTask_def sleepers_none)
  qed
next
  assume "step (Enqueue t) s = Inl h"
  then show "h = NotEnabled" "queueLock s \<noteq> None" by (auto split: if_splits)
next
  assume a: "exec tr (ThreadPool n w) = Inr r \<and> runqueue r \<noteq> [] \<and> signals_due r = 0 \<and>
    list_ex (\<lambda>p. \<not> exited p) (workers r)"
  then have "wake_inv r" using pool_inv_reachable[of tr n w r] by (simp add: pool_inv_def)
  with a show "list_ex awake (workers r)" by (simp add: wake_inv_def)
qed


text \<open>A sleeping worker is woken by the submission; a submission while the worker holds
  the mutex has to wait.\<close>

theorem submitTask_enqueues_and_signals_witness:
  "exec ([Work 0, Work 0, Work 0] @ submitTask (Fn (main_task 1)) 0) (ThreadPool 1 []) =
   Inr \<lparr>shouldStop = False, workers = [AtLock], joinable = [True],
        runqueue = [Fn (main_task 1)], queueLock = None, signals_due = 0, world = [],
        stderr = [], submitted = [Fn (main_task 1)], taken = [], finished = []\<rparr> \<and>
   step (Enqueue (Fn (main_task 1))) (projr (exec [Work 0] (ThreadPool 1 []))) = Inl NotEnabled \<and>
   list_ex awake (workers (projr (exec ([Work 0, Work 0, Work 0] @
      submitTask (Fn (main_task 1)) 0) (ThreadPool 1 []))))"
  using submitTask_enqueues_and_signals[where
      s = "projr (exec [Work 0, Work 0, Work 0] (ThreadPool 1 []))" and
      t = "Fn (main_task 1)" and
      tr = "[Work 0, Work 0, Work 0] @ submitTask (Fn (main_task 1)) 0" and n = 1 and
      w = "[]" and
      r = "projr (exec ([Work 0, Work 0, Work 0] @ submitTask (Fn (main_task 1)) 0)
             (ThreadPool 1 []))"]
    submitTask_enqueues_and_signals[where
      s = "projr (exec [Work 0] (ThreadPool 1 []))" and t = "Fn (main_task 1)" and
      h = NotEnabled]
  by (simp add: ThreadPool_def submitTask_def work_def)

subsection \<open>C9: no pop from an empty queue\<close>

text \<open>
  Claim C9. A worker pops only from a non-empty queue: the wait predicate and the test
  of line 53, under the mutex, keep \<open>front\<close>/\<open>pop\<close> (lines 55-56) from ever running on an
  empty queue, also when a worker wakes up spuriously.

  In the model \<open>front\<close> on an empty queue is the halt \<open>UndefinedBehaviour\<close>. No run from
  the constructor, whatever the interleaving of workers, submitters, shutdown and
  spurious wake-ups, ends in it, and whenever a worker stands before lines 55-56 the
  queue is non-empty.
\<close>

theorem pop_only_from_nonempty_queue:
  "exec tr (ThreadPool n w) \<noteq> Inl UndefinedBehaviour \<and>
   (exec tr (ThreadPool n w) = Inr s \<longrightarrow> i < length (workers s) \<longrightarrow> workers s ! i = AtPop
      \<longrightarrow> runqueue s \<noteq> [])"
proof (intro conjI impI)
  show "exec tr (ThreadPool n w) \<noteq> Inl UndefinedBehaviour"
    by (rule exec_defined[OF pool_inv_ThreadPool])
next
  assume r: "exec tr (ThreadPool n w) = Inr s" and i: "i < length (workers s)"
    and p: "workers s ! i = AtPop"
  from pool_inv_reachable[OF r] have li: "lock_inv s" and cs: "cs_inv s"
    by (simp_all add: pool_inv_def)
  from li i p have "queueLock s = Some i" by (simp add: lock_inv_self)
  with cs p show "runqueue s \<noteq> []" by (simp add: cs_inv_def)
qed

text \<open>A run with a spurious wake-up that brings worker 0 before lines 55-56.\<close>

theorem pop_only_from_nonempty_queue_witness:
  "exec [Work 0, Work 0, Work 0, Spurious 0, Enqueue (Fn (main_task 1)), Work 0, Work 0,
         Work 0, Work 0] (ThreadPool 1 []) \<noteq> Inl UndefinedBehaviour \<and>
   runqueue (projr (exec [Work 0, Work 0, Work 0, Spurious 0, Enqueue (Fn (main_task 1)),
         Work 0, Work 0, Work 0, Work 0] (ThreadPool 1 []))) \<noteq> []"
  using pop_only_from_nonempty_queue[of
      "[Work 0, Work 0, Work 0, Spurious 0, Enqueue (Fn (main_task 1)), Work 0, Work 0,
        Work 0, Work 0]" 1 "[]"
      "projr (exec [Work 0, Work 0, Work 0, Spurious 0, Enqueue (Fn (main_task 1)),
        Work 0, Work 0, Work 0, Work 0] (ThreadPool 1 []))" 0]
  by (simp add: ThreadPool_def work_def)

subsection \<open>C10: an empty callable\<close>

text \<open>
  Claim C10. Submitting an empty \<open>std::function\<close> is safe: it is enqueued like any task,
  a worker pops it, the test \<open>if (task)\<close> of line 60 skips the call, nothing is executed
  or reported, and the worker is back at the top of its loop, still alive.
\<close>

theorem empty_task_is_skipped:
  "(queueLock s = None \<longrightarrow>
      step (Enqueue NullFn) s =
        Inr (s\<lparr>runqueue := runqueue s @ [NullFn], signals_due := Suc (signals_due s),
               submitted := submitted s @ [NullFn]\<rparr>)) \<and>
   (i < length (workers s) \<and> workers s ! i = AtPop \<and> runqueue s = NullFn # q \<longrightarrow>
      exec [Work i] s =
        Inr (s\<lparr>runqueue := q, queueLock := None, taken := taken s @ [NullFn],
               workers := (workers s)[i := Holding NullFn]\<rparr>) \<and>
      exec [Work i, Work i] s =
        Inr (s\<lparr>runqueue := q, queueLock := None, taken := taken s @ [NullFn],
               finished := finished s @ [NullFn], workers := (workers s)[i := AtLock]\<rparr>)) \<and>
   (i < length (workers s) \<and> workers s ! i = Holding NullFn \<longrightarrow>
      (\<exists>s'. work i s = Inr s' \<and> workers s' = (workers s)[i := AtLock] \<and>
            world s' = world s \<and> stderr s' = stderr s \<and>
            live (workers s') = live (workers s)))"
  by (auto simp: work_def live_update)

text \<open>One worker, one empty task: submitted, popped and skipped.\<close>

theorem empty_task_is_skipped_witness:
  "exec (submitTask NullFn 0 @ [Work 0, Work 0, Work 0, Work 0, Work 0, Work 0])
     (ThreadPool 1 []) =
   Inr \<lparr>shouldStop = False, workers = [AtLock], joinable = [True], runqueue = [],
        queueLock = None, signals_due = 0, world = [], stderr = [], submitted = [NullFn],
        taken = [NullFn], finished = [NullFn]\<rparr>"
  using empty_task_is_skipped[of "ThreadPool 1 []" 0 "[]"]
    empty_task_is_skipped[of
      "projr (exec (submitTask NullFn 0 @ [Work 0, Work 0, Work 0, Work 0]) (ThreadPool 1 []))"
      0 "[]"]
    empty_task_is_skipped[of
      "projr (exec (submitTask NullFn 0 @ [Work 0, Work 0, Work 0, Work 0, Work 0])
         (ThreadPool 1 []))" 0 "[]"]
  by (simp add: ThreadPool_def submitTask_def work_def)

end
